theory Spec2Isabelle
  imports Main "HOL-Library.AList"
begin

section \<open>RecordSetEventManager.js: the record list and the events it derives\<close>

subsection \<open>Data\<close>

text \<open>
  Record keys are JavaScript strings. A snapshot is opaque to the engine (type \<open>'v\<close>).
  The record object \<open>obs.child(key)\<close> is identified by the key it was made for.
\<close>

type_synonym key = string

datatype child_rec = Child key

text \<open>
  Two function values occur as watch callbacks: the method \<open>this._valueUpdated\<close> itself,
  and the function \<open>util.bind(this._valueUpdated, this, key)\<close> made by \<open>add\<close>, which
  calls the method with the key as its first argument.
\<close>

datatype callback = ValueUpdatedMethod | BoundValueUpdated key

datatype master_event = master_child_added | master_child_removed | master_child_moved | master_value

text \<open>
  Everything the code does to its collaborators, in the order it does it: the calls
  \<open>obs.handler(event).apply(obs, args)\<close> (the five consumer events; a missing argument or an
  absent property is \<open>None\<close>, JavaScript's \<open>undefined\<close>; a \<open>null\<close> previous key is \<open>None\<close>),
  \<open>rec.watch\<close>/\<open>rec.unwatch\<close> with the callback passed, and \<open>masterRef.on/off/once\<close>.
\<close>

datatype 'v effect =
    ChildAdded key "'v option" "key option"
  | ChildMoved key "'v option" "key option"
  | ChildChanged key "'v option"
  | ChildRemoved key "'v option"
  | Value "'v list"
  | Watch child_rec callback
  | Unwatch child_rec callback
  | MasterOn master_event
  | MasterOff master_event
  | MasterOnce master_event

text \<open>
  The fields of \<open>RecordList\<close> that \<open>_reset\<close> initialises. The objects \<open>recs\<close>, \<open>snaps\<close>
  and \<open>loading\<close> are association lists holding the properties in creation order:
  \<open>obj[k] = v\<close> is \<open>AList.update k v obj\<close> (in place for an existing key, appended for a
  new one), \<open>delete obj[k]\<close> is \<open>AList.delete k obj\<close>, and \<open>obj[k]\<close> is \<open>map_of obj k\<close>.
  The order in which JavaScript enumerates the properties is \<open>own_entries\<close> below.
  An object's prototype is not part of this: for the one key \<open>__proto__\<close> an assignment
  changes the prototype and creates no property, and what the code does from there
  depends on \<open>util.has\<close>; where the contents of the snapshot store are described, values
  arriving for that key are set apart (\<open>arrival_tracked\<close> below).
  The constant fields \<open>obs\<close> and \<open>url\<close> are left out.
\<close>

record 'v RecordList =
  recs :: "(key \<times> child_rec) list"
  recIds :: "key list"
  snaps :: "(key \<times> 'v) list"
  loading :: "(key \<times> child_rec \<times> key option) list"
  loadComplete :: bool
  initialKeysLeft :: "key list"
  masterLoaded :: bool

record 'v RecordSetEventManager =
  recList :: "'v RecordList"
  running :: bool

subsection \<open>Helpers of the module \<open>common\<close> and of JavaScript arrays\<close>

text \<open>
  Modelled from the spec: the helper module \<open>../../common\<close> (\<open>util.has\<close>, \<open>util.indexOf\<close>,
  \<open>util.remove\<close>, \<open>util.toArray\<close>, \<open>util.each\<close>, \<open>util.bind\<close>) is not among the sources.
  The spec's predecessor lookup and insertion position speak of a key "not found", which
  is the \<open>-1\<close> the callers of \<open>util.indexOf\<close> test for; \<open>util.has\<close> is the test "is tracked"
  of an object's own keys; \<open>util.remove\<close> takes a key off a list (its first occurrence);
  \<open>util.toArray\<close> lists an object's values and \<open>util.each\<close> visits an object's entries,
  both in the order in which JavaScript enumerates an object's own properties.
\<close>

definition has :: "(key \<times> 'a) list \<Rightarrow> key \<Rightarrow> bool" where
  "has obj k = (map_of obj k \<noteq> None)"

definition indexOf :: "'a list \<Rightarrow> 'a \<Rightarrow> int" where
  "indexOf xs x = (if x \<in> set xs then int (length (takeWhile (\<lambda>y. y \<noteq> x) xs)) else - 1)"

definition remove_item :: "'a list \<Rightarrow> 'a \<Rightarrow> 'a list" where
  "remove_item xs x = remove1 x xs"

text \<open>
  The enumeration order of an object's own properties: the keys that are array indices
  (the decimal numeral, without leading zeros, of a number below \<open>2^32 - 1\<close>) come first,
  in ascending numeric order, and the other keys follow in the order of their creation.
\<close>

definition is_digit :: "char \<Rightarrow> bool" where
  "is_digit c = (c \<in> set ''0123456789'')"

definition digit_value :: "char \<Rightarrow> int" where
  "digit_value c = of_char c - 48"

definition index_number :: "string \<Rightarrow> int" where
  "index_number s = foldl (\<lambda>n c. 10 * n + digit_value c) 0 s"

fun is_array_index :: "string \<Rightarrow> bool" where
  "is_array_index [] = False"
| "is_array_index (c # cs) =
     (list_all is_digit (c # cs) \<and> (cs = [] \<or> c \<noteq> CHR ''0'')
      \<and> index_number (c # cs) < 4294967295)"

definition own_entries :: "(key \<times> 'a) list \<Rightarrow> (key \<times> 'a) list" where
  "own_entries obj =
     sort_key (\<lambda>e. index_number (fst e)) (filter (\<lambda>e. is_array_index (fst e)) obj)
     @ filter (\<lambda>e. \<not> is_array_index (fst e)) obj"

definition own_keys :: "(key \<times> 'a) list \<Rightarrow> key list" where
  "own_keys obj = map fst (own_entries obj)"

definition toArray :: "(key \<times> 'a) list \<Rightarrow> 'a list" where
  "toArray obj = map snd (own_entries obj)"

text \<open>
  \<open>Array.prototype.splice(start, deleteCount, items...)\<close>: a negative start counts from
  the end, and start is clamped to the array.
\<close>

definition splice :: "int \<Rightarrow> nat \<Rightarrow> 'a list \<Rightarrow> 'a list \<Rightarrow> 'a list" where
  "splice start deleteCount items xs =
     (let n = int (length xs);
          st = nat (if start < 0 then max (n + start) 0 else min start n)
      in take st xs @ items @ drop (st + deleteCount) xs)"

text \<open>\<open>xs[i]\<close>: \<open>undefined\<close> (here \<open>None\<close>) out of range.\<close>

definition at :: "'a list \<Rightarrow> int \<Rightarrow> 'a option" where
  "at xs i = (if 0 \<le> i \<and> i < int (length xs) then Some (xs ! nat i) else None)"

text \<open>The truthiness test \<open>if( key )\<close> on an optional string argument.\<close>

fun truthy :: "key option \<Rightarrow> bool" where
  "truthy None = False"
| "truthy (Some k) = (k \<noteq> [])"

subsection \<open>RecordList\<close>

definition findKey :: "'v RecordList \<Rightarrow> key \<Rightarrow> int" where
  "findKey s k = indexOf (recIds s) k"

definition notifyValue :: "'v RecordList \<Rightarrow> 'v effect list" where
  "notifyValue s = (if loadComplete s then [Value (toArray (snaps s))] else [])"

definition getPrevChild :: "'v RecordList \<Rightarrow> key \<Rightarrow> key option" where
  "getPrevChild s k =
     (if recIds s = [] then None
      else let pos = findKey s k in
        if pos = - 1 then at (recIds s) (int (length (recIds s)) - 1)
        else if pos = 0 then None
        else at (recIds s) (pos - 1))"

text \<open>
  \<open>_notify\<close> is only ever called with one of four literal event names, so the event name
  is a datatype and the \<open>default: throw\<close> branch of the switch has no case here.
  The third parameter \<open>oldSnap\<close> is read by \<open>child_removed\<close> only.
\<close>

datatype event_kind = child_added | child_moved | child_changed | child_removed

fun notify :: "event_kind \<Rightarrow> key \<Rightarrow> 'v option \<Rightarrow> 'v RecordList \<Rightarrow> 'v effect list" where
  "notify child_added k oldSnap s =
     ChildAdded k (map_of (snaps s) k) (getPrevChild s k) # notifyValue s"
| "notify child_moved k oldSnap s =
     ChildMoved k (map_of (snaps s) k) (getPrevChild s k) # notifyValue s"
| "notify child_changed k oldSnap s =
     ChildChanged k (map_of (snaps s) k) # notifyValue s"
| "notify child_removed k oldSnap s =
     ChildRemoved k oldSnap # notifyValue s"

definition posFor :: "'v RecordList \<Rightarrow> key option \<Rightarrow> int" where
  "posFor s prevKey =
     (case prevKey of
        None \<Rightarrow> 0
      | Some p \<Rightarrow> (let x = findKey s p in if x = - 1 then int (length (recIds s)) else x + 1))"

definition putAfter :: "key \<Rightarrow> key option \<Rightarrow> 'v RecordList \<Rightarrow> 'v RecordList" where
  "putAfter k prevChild s =
     (let newPos = posFor s prevChild in s\<lparr>recIds := splice newPos 0 [k] (recIds s)\<rparr>)"

text \<open>
  \<open>_dropRecord\<close> returns \<open>null\<close> (the outer \<open>None\<close>) for a key that is not in \<open>recs\<close>, and
  otherwise \<open>snaps[key]\<close> as it was before the deletion.
\<close>

definition dropRecord :: "key \<Rightarrow> 'v RecordList \<Rightarrow> 'v option option \<times> 'v RecordList \<times> 'v effect list" where
  "dropRecord k s =
     (case map_of (recs s) k of
        Some r \<Rightarrow>
          (Some (map_of (snaps s) k),
           s\<lparr>recs := AList.delete k (recs s),
             snaps := AList.delete k (snaps s),
             loading := AList.delete k (loading s),
             recIds := remove_item (recIds s) k\<rparr>,
           [Unwatch r ValueUpdatedMethod])
      | None \<Rightarrow> (None, s, []))"

definition checkLoadState :: "key option \<Rightarrow> 'v RecordList \<Rightarrow> 'v RecordList \<times> 'v effect list" where
  "checkLoadState ko s =
     (if loadComplete s then (s, [])
      else
        let s1 = (case ko of
                    Some k \<Rightarrow> if truthy ko then s\<lparr>initialKeysLeft := remove_item (initialKeysLeft s) k\<rparr> else s
                  | None \<Rightarrow> s)
        in if initialKeysLeft s1 = [] \<and> masterLoaded s1
           then (let s2 = s1\<lparr>loadComplete := True\<rparr>
                 in (s2, if \<not> truthy ko then notifyValue s2 else []))
           else (s1, []))"

definition add :: "key \<Rightarrow> key option \<Rightarrow> 'v RecordList \<Rightarrow> 'v RecordList \<times> 'v effect list" where
  "add k prevChild s =
     (let r = Child k;
          s1 = s\<lparr>loading := AList.update k (r, prevChild) (loading s)\<rparr>;
          s2 = (if \<not> loadComplete s1 then s1\<lparr>initialKeysLeft := initialKeysLeft s1 @ [k]\<rparr> else s1)
      in (s2, [Watch r (BoundValueUpdated k)]))"

definition remove_key :: "key \<Rightarrow> 'v RecordList \<Rightarrow> 'v RecordList \<times> 'v effect list" where
  "remove_key k s =
     (case dropRecord k s of
        (None, s1, es) \<Rightarrow> (s1, es)
      | (Some oldSnap, s1, es) \<Rightarrow> (s1, es @ notify child_removed k oldSnap s1))"

definition move :: "key \<Rightarrow> key option \<Rightarrow> 'v RecordList \<Rightarrow> 'v RecordList \<times> 'v effect list" where
  "move k prevChild s =
     (if has (recs s) k
      then (let currPos = indexOf (recIds s) k;
                s1 = s\<lparr>recIds := splice currPos 1 [] (recIds s)\<rparr>;
                s2 = putAfter k prevChild s1
            in (s2, notify child_moved k None s2))
      else (s, []))"

definition masterPathLoaded :: "'v RecordList \<Rightarrow> 'v RecordList \<times> 'v effect list" where
  "masterPathLoaded s = checkLoadState None (s\<lparr>masterLoaded := True\<rparr>)"

text \<open>
  \<open>_reset\<close>: \<open>util.each(this.recs, ...)\<close> calls \<open>remove\<close> for the keys of \<open>recs\<close>, in their
  enumeration order (each call deletes only the key being visited), then every field is
  set anew.
\<close>

fun each_remove :: "key list \<Rightarrow> 'v RecordList \<Rightarrow> 'v RecordList \<times> 'v effect list" where
  "each_remove [] s = (s, [])"
| "each_remove (k # ks) s =
     (case remove_key k s of (s1, e1) \<Rightarrow>
        (case each_remove ks s1 of (s2, e2) \<Rightarrow> (s2, e1 @ e2)))"

definition fresh :: "'v RecordList" where
  "fresh = \<lparr>recs = [], recIds = [], snaps = [], loading = [], loadComplete = False,
            initialKeysLeft = [], masterLoaded = False\<rparr>"

definition reset :: "'v RecordList \<Rightarrow> 'v RecordList \<times> 'v effect list" where
  "reset s = (case each_remove (own_keys (recs s)) s of (s1, es) \<Rightarrow> (fresh, es))"

definition unloaded :: "'v RecordList \<Rightarrow> 'v RecordList \<times> 'v effect list" where
  "unloaded s = reset s"

definition valueUpdated :: "key \<Rightarrow> 'v \<Rightarrow> 'v RecordList \<Rightarrow> 'v RecordList \<times> 'v effect list" where
  "valueUpdated k snap s =
     (let s1 = s\<lparr>snaps := AList.update k snap (snaps s)\<rparr>
      in case map_of (loading s1) k of
           Some (r, prev) \<Rightarrow>
             (let s2 = s1\<lparr>loading := AList.delete k (loading s1)\<rparr>;
                  s3 = s2\<lparr>recs := AList.update k r (recs s2)\<rparr>;
                  s4 = putAfter k prev s3
              in case checkLoadState (Some k) s4 of
                   (s5, es) \<Rightarrow> (s5, es @ notify child_added k None s5))
         | None \<Rightarrow>
             if has (recs s1) k then (s1, notify child_changed k None s1)
             else (s1, []))"

subsection \<open>RecordSetEventManager\<close>

definition start :: "'v RecordSetEventManager \<Rightarrow> 'v RecordSetEventManager \<times> 'v effect list" where
  "start m =
     (if \<not> running m
      then (m\<lparr>running := True\<rparr>,
            [MasterOn master_child_added, MasterOn master_child_removed,
             MasterOn master_child_moved, MasterOnce master_value])
      else (m, []))"

definition stop :: "'v RecordSetEventManager \<Rightarrow> 'v RecordSetEventManager \<times> 'v effect list" where
  "stop m =
     (if running m
      then (case unloaded (recList m) of
              (rl, es) \<Rightarrow>
                (m\<lparr>running := False, recList := rl\<rparr>,
                 [MasterOff master_child_added, MasterOff master_child_removed,
                  MasterOff master_child_moved] @ es))
      else (m, []))"

subsection \<open>Sessions\<close>

text \<open>
  What can happen to a record list between its construction and any later moment: the
  three ordering events, the initial-load signal, the reset, and a value delivered by a
  watch callback for some key. A value may arrive for any key at any time.
\<close>

datatype 'v op =
    Add key "key option"
  | Remove key
  | Move key "key option"
  | MasterPathLoaded
  | Unloaded
  | ValueUpdated key 'v

fun step :: "'v op \<Rightarrow> 'v RecordList \<Rightarrow> 'v RecordList \<times> 'v effect list" where
  "step (Add k p) s = add k p s"
| "step (Remove k) s = remove_key k s"
| "step (Move k p) s = move k p s"
| "step MasterPathLoaded s = masterPathLoaded s"
| "step Unloaded s = unloaded s"
| "step (ValueUpdated k v) s = valueUpdated k v s"

fun run :: "'v op list \<Rightarrow> 'v RecordList \<Rightarrow> 'v RecordList \<times> 'v effect list" where
  "run [] s = (s, [])"
| "run (x # xs) s =
     (case step x s of (s1, e1) \<Rightarrow>
        (case run xs s1 of (s2, e2) \<Rightarrow> (s2, e1 @ e2)))"

inductive reachable :: "'v RecordList \<Rightarrow> bool" where
  reachable_fresh: "reachable fresh"
| reachable_step: "reachable s \<Longrightarrow> reachable (fst (step x s))"

subsection \<open>Observations on a session\<close>

text \<open>The payloads of the aggregate \<open>value\<close> notifications among some effects, in order.\<close>

fun value_payloads :: "'v effect list \<Rightarrow> 'v list list" where
  "value_payloads [] = []"
| "value_payloads (Value p # es) = p # value_payloads es"
| "value_payloads (e # es) = value_payloads es"


text \<open>
  The value of the \<open>loadComplete\<close> flag before a sequence of operations and after each
  of them, and the number of changes from false to true in such a sequence of flags.
\<close>

fun history :: "'v op list \<Rightarrow> 'v RecordList \<Rightarrow> bool list" where
  "history [] s = [loadComplete s]"
| "history (x # xs) s = loadComplete s # history xs (fst (step x s))"

fun rises :: "bool list \<Rightarrow> nat" where
  "rises (a # b # bs) = (if \<not> a \<and> b then 1 else 0) + rises (b # bs)"
| "rises bs = 0"

text \<open>
  The operations that concern a pending key: adding it again, removing it, delivering its
  value, and the reset.
\<close>

fun touches :: "key \<Rightarrow> 'v op \<Rightarrow> bool" where
  "touches k (Add k' p) = (k' = k)"
| "touches k (Remove k') = (k' = k)"
| "touches k (ValueUpdated k' v) = (k' = k)"
| "touches k Unloaded = True"
| "touches k (Move k' p) = False"
| "touches k MasterPathLoaded = False"

text \<open>A session in which A and then B (after A) were announced and delivered.\<close>

definition active_AB :: "string RecordList" where
  "active_AB = fst (run [Add ''A'' None, ValueUpdated ''A'' ''a'', Add ''B'' (Some ''A''),
                         ValueUpdated ''B'' ''b''] fresh)"

text \<open>
  The snapshot store against the active records: every active key is in the ordered
  sequence and has a stored snapshot, and the store has one entry per key.
\<close>

definition store_inv :: "'v RecordList \<Rightarrow> bool" where
  "store_inv s = ((\<forall>k. has (recs s) k \<longrightarrow> k \<in> set (recIds s) \<and> has (snaps s) k)
                  \<and> distinct (map fst (snaps s)))"

text \<open>
  Three more sessions: A, B (after A), C (after B) fully loaded; A, B (after A),
  C (after A) with the values arriving in the order A, B, C, before the initial-load
  signal; and A active with B (after A) still pending.
\<close>

definition loaded_ABC :: "string RecordList" where
  "loaded_ABC = fst (run [Add ''A'' None, Add ''B'' (Some ''A''), Add ''C'' (Some ''B''),
                          ValueUpdated ''A'' ''a'', ValueUpdated ''B'' ''b'', ValueUpdated ''C'' ''c'',
                          MasterPathLoaded] fresh)"


definition pending_B :: "string RecordList" where
  "pending_B = fst (run [Add ''A'' None, ValueUpdated ''A'' ''a'', Add ''B'' (Some ''A'')] fresh)"

subsection \<open>The snapshot store along a session\<close>











section \<open>Properties\<close>

subsection \<open>Auxiliary facts\<close>

lemmas eval_defs = add_def remove_key_def move_def masterPathLoaded_def unloaded_def reset_def
  valueUpdated_def checkLoadState_def dropRecord_def putAfter_def posFor_def findKey_def
  getPrevChild_def notifyValue_def fresh_def has_def indexOf_def remove_item_def toArray_def
  splice_def at_def Let_def

lemma value_payloads_append:
  "value_payloads (xs @ ys) = value_payloads xs @ value_payloads ys"
  by (induction xs rule: value_payloads.induct) simp_all

lemma value_payloads_notifyValue:
  "value_payloads (notifyValue s) = (if loadComplete s then [toArray (snaps s)] else [])"
  by (simp add: notifyValue_def)

lemma remove_key_flags:
  "loadComplete (fst (remove_key k s)) = loadComplete s"
  "masterLoaded (fst (remove_key k s)) = masterLoaded s"
  "initialKeysLeft (fst (remove_key k s)) = initialKeysLeft s"
  by (simp_all add: remove_key_def dropRecord_def split: option.splits prod.splits)

lemma remove_key_payloads:
  "\<not> loadComplete s \<Longrightarrow> value_payloads (snd (remove_key k s)) = []"
  by (simp add: remove_key_def dropRecord_def value_payloads_append value_payloads_notifyValue
      split: option.splits prod.splits)

lemma each_remove_payloads:
  "\<not> loadComplete s \<Longrightarrow> value_payloads (snd (each_remove ks s)) = []"
proof (induction ks arbitrary: s)
  case Nil
  then show ?case by simp
next
  case (Cons k ks)
  obtain s1 e1 where r: "remove_key k s = (s1, e1)" by (cases "remove_key k s")
  obtain s2 e2 where e: "each_remove ks s1 = (s2, e2)" by (cases "each_remove ks s1")
  from r have "loadComplete s1 = loadComplete s" using remove_key_flags(1) [of k s] by simp
  with Cons have "value_payloads e2 = []" using e Cons.IH [of s1] by simp
  moreover have "value_payloads e1 = []" using remove_key_payloads [OF Cons.prems, of k] r by simp
  ultimately show ?case using r e by (simp add: value_payloads_append)
qed

lemma putAfter_flags:
  "loadComplete (putAfter k p s) = loadComplete s"
  "masterLoaded (putAfter k p s) = masterLoaded s"
  "initialKeysLeft (putAfter k p s) = initialKeysLeft s"
  "snaps (putAfter k p s) = snaps s"
  "recs (putAfter k p s) = recs s"
  "loading (putAfter k p s) = loading s"
  by (simp_all add: putAfter_def Let_def)




lemma checkLoadState_done: "loadComplete s \<Longrightarrow> checkLoadState ko s = (s, [])"
  by (simp add: checkLoadState_def)


lemma checkLoadState_snaps: "snaps (fst (checkLoadState ko s)) = snaps s"
  by (simp add: checkLoadState_def Let_def split: option.splits)

lemma checkLoadState_recIds: "recIds (fst (checkLoadState ko s)) = recIds s"
  by (simp add: checkLoadState_def Let_def split: option.splits)


lemma valueUpdated_pending:
  "map_of (loading s) k = Some (r, p) \<Longrightarrow>
   valueUpdated k v s =
     (fst (checkLoadState (Some k) (putAfter k p (s\<lparr>snaps := AList.update k v (snaps s),
         loading := AList.delete k (loading s), recs := AList.update k r (recs s)\<rparr>))),
      snd (checkLoadState (Some k) (putAfter k p (s\<lparr>snaps := AList.update k v (snaps s),
         loading := AList.delete k (loading s), recs := AList.update k r (recs s)\<rparr>)))
      @ notify child_added k None
         (fst (checkLoadState (Some k) (putAfter k p (s\<lparr>snaps := AList.update k v (snaps s),
         loading := AList.delete k (loading s), recs := AList.update k r (recs s)\<rparr>)))))"
  by (simp add: valueUpdated_def Let_def case_prod_beta)

lemma valueUpdated_not_pending:
  "map_of (loading s) k = None \<Longrightarrow>
   valueUpdated k v s =
     (s\<lparr>snaps := AList.update k v (snaps s)\<rparr>,
      if has (recs s) k then notify child_changed k None (s\<lparr>snaps := AList.update k v (snaps s)\<rparr>) else [])"
  by (simp add: valueUpdated_def Let_def)






lemma run_Cons:
  "run (x # xs) s = (fst (run xs (fst (step x s))), snd (step x s) @ snd (run xs (fst (step x s))))"
  by (simp add: case_prod_beta)

lemma each_remove_Cons:
  "each_remove (k # ks) s =
     (fst (each_remove ks (fst (remove_key k s))), snd (remove_key k s) @ snd (each_remove ks (fst (remove_key k s))))"
  by (simp add: case_prod_beta)

lemma step_payloads:
  assumes "\<not> loadComplete s" and "\<not> loadComplete (fst (step x s))"
  shows "value_payloads (snd (step x s)) = []"
proof (cases x)
  case (Add k p)
  then show ?thesis by (simp add: add_def Let_def)
next
  case (Remove k)
  then show ?thesis using assms by (simp add: remove_key_payloads)
next
  case (Move k p)
  then show ?thesis using assms
    by (auto simp: move_def Let_def value_payloads_notifyValue split: if_splits)
next
  case MasterPathLoaded
  then show ?thesis using assms
    by (auto simp: masterPathLoaded_def checkLoadState_def Let_def split: if_splits)
next
  case Unloaded
  then show ?thesis using assms
    by (simp add: unloaded_def reset_def case_prod_beta each_remove_payloads)
next
  case (ValueUpdated k v)
  show ?thesis
  proof (cases "map_of (loading s) k")
    case None
    then show ?thesis using ValueUpdated assms
      by (simp add: valueUpdated_not_pending value_payloads_notifyValue)
  next
    case (Some rp)
    obtain r p where rp: "rp = (r, p)" by (cases rp)
    let ?s4 = "putAfter k p (s\<lparr>snaps := AList.update k v (snaps s),
         loading := AList.delete k (loading s), recs := AList.update k r (recs s)\<rparr>)"
    have nl: "\<not> loadComplete (fst (checkLoadState (Some k) ?s4))"
      using assms ValueUpdated Some rp by (simp add: valueUpdated_pending)
    then have "snd (checkLoadState (Some k) ?s4) = []"
      by (auto simp: checkLoadState_def Let_def putAfter_flags split: if_splits)
    then show ?thesis using nl ValueUpdated Some rp
      by (simp add: valueUpdated_pending value_payloads_notifyValue)
  qed
qed

text \<open>
  C2. Before load-complete the aggregate-notification step emits nothing, and a run of
  operations that emits an aggregate value notification has the load-complete flag true
  after some prefix of the operations: none is emitted while the flag has never been true.
\<close>

theorem value_suppressed_before_load_complete:
  "(\<not> loadComplete s \<longrightarrow> notifyValue s = [])
   \<and> (value_payloads (snd (run ops s)) \<noteq> [] \<longrightarrow>
        (\<exists>n\<le>length ops. loadComplete (fst (run (take n ops) s))))"
proof
  show "\<not> loadComplete s \<longrightarrow> notifyValue s = []" by (simp add: notifyValue_def)
  show "value_payloads (snd (run ops s)) \<noteq> [] \<longrightarrow>
        (\<exists>n\<le>length ops. loadComplete (fst (run (take n ops) s)))"
  proof (induction ops arbitrary: s)
    case Nil
    then show ?case by simp
  next
    case (Cons x xs)
    show ?case
    proof
      assume ne: "value_payloads (snd (run (x # xs) s)) \<noteq> []"
      show "\<exists>n\<le>length (x # xs). loadComplete (fst (run (take n (x # xs)) s))"
      proof (cases "loadComplete s")
        case True
        then have "loadComplete (fst (run (take 0 (x # xs)) s))" by simp
        then show ?thesis by blast
      next
        case False
        show ?thesis
        proof (cases "loadComplete (fst (step x s))")
          case True
          then have "loadComplete (fst (run (take (Suc 0) (x # xs)) s))"
            by (simp add: case_prod_beta)
          moreover have "Suc 0 \<le> length (x # xs)" by simp
          ultimately show ?thesis by blast
        next
          case F2: False
          have "value_payloads (snd (step x s)) = []" using False F2 by (rule step_payloads)
          then have "value_payloads (snd (run xs (fst (step x s)))) \<noteq> []"
            using ne by (simp add: run_Cons value_payloads_append del: run.simps)
          then obtain n where n: "n \<le> length xs" "loadComplete (fst (run (take n xs) (fst (step x s))))"
            using Cons.IH by blast
          then have "loadComplete (fst (run (take (Suc n) (x # xs)) s))"
            by (simp add: case_prod_beta)
          moreover have "Suc n \<le> length (x # xs)" using n by simp
          ultimately show ?thesis by blast
        qed
      qed
    qed
  qed
qed

theorem value_suppressed_witness:
  "value_payloads (snd (run [Add ''A'' None, MasterPathLoaded, ValueUpdated ''A'' ''a''] (fresh :: string RecordList))) \<noteq> []
   \<and> \<not> loadComplete (fresh :: string RecordList) \<and> notifyValue (fresh :: string RecordList) = []
   \<and> (\<exists>n\<le>length [Add ''A'' None, MasterPathLoaded, ValueUpdated ''A'' (''a'' :: string)]. loadComplete (fst (run (take n [Add ''A'' None, MasterPathLoaded, ValueUpdated ''A'' ''a'']) (fresh :: string RecordList))))"
  using value_suppressed_before_load_complete [of "fresh :: string RecordList" "[Add ''A'' None, MasterPathLoaded, ValueUpdated ''A'' ''a'']"]
  by (simp add: eval_defs)

lemma step_keeps_loadComplete:
  "x \<noteq> Unloaded \<Longrightarrow> loadComplete s \<Longrightarrow> loadComplete (fst (step x s))"
proof (cases x)
  case (ValueUpdated k v)
  assume "loadComplete s"
  then show ?thesis using ValueUpdated
    by (cases "map_of (loading s) k")
      (auto simp: valueUpdated_not_pending valueUpdated_pending checkLoadState_done putAfter_flags)
qed (auto simp: add_def Let_def remove_key_flags move_def putAfter_flags masterPathLoaded_def checkLoadState_done)

lemma history_all_true:
  "Unloaded \<notin> set ops \<Longrightarrow> loadComplete s \<Longrightarrow> \<forall>b\<in>set (history ops s). b"
proof (induction ops arbitrary: s)
  case Nil
  then show ?case by simp
next
  case (Cons x xs)
  have "x \<noteq> Unloaded" using Cons.prems by auto
  then have "loadComplete (fst (step x s))" using Cons.prems by (simp add: step_keeps_loadComplete)
  moreover have "Unloaded \<notin> set xs" using Cons.prems by simp
  ultimately have "\<forall>b\<in>set (history xs (fst (step x s))). b" by (rule Cons.IH [rotated])
  then show ?case using Cons.prems by simp
qed

lemma rises_all_true: "\<forall>b\<in>set bs. b \<Longrightarrow> rises bs = 0"
  by (induction bs rule: rises.induct) auto

lemma history_hd: "history ops s = loadComplete s # tl (history ops s)"
  by (cases ops) simp_all

text \<open>
  C4. Along any sequence of add, remove, move, value-arrival and ordering-loaded
  operations (no reset), the load-complete flag changes from false to true at most once,
  and once true it is true after every later operation. The reset makes it false.
\<close>

theorem load_complete_monotone:
  assumes "Unloaded \<notin> set ops"
  shows "rises (history ops s) \<le> 1
       \<and> (loadComplete s \<longrightarrow> (\<forall>b\<in>set (history ops s). b))
       \<and> \<not> loadComplete (fst (step Unloaded s))"
proof (intro conjI)
  show "loadComplete s \<longrightarrow> (\<forall>b\<in>set (history ops s). b)"
    using history_all_true [OF assms] by blast
  show "\<not> loadComplete (fst (step Unloaded s))"
    by (simp add: unloaded_def reset_def case_prod_beta fresh_def)
  show "rises (history ops s) \<le> 1" using assms
  proof (induction ops arbitrary: s)
    case Nil
    then show ?case by simp
  next
    case (Cons x xs)
    let ?s1 = "fst (step x s)"
    have xs: "Unloaded \<notin> set xs" and x: "x \<noteq> Unloaded" using Cons.prems by auto
    obtain bs where h: "history xs ?s1 = loadComplete ?s1 # bs"
      using history_hd [of xs ?s1] by blast
    show ?case
    proof (cases "loadComplete ?s1")
      case True
      then have "\<forall>b\<in>set (history xs ?s1). b" using history_all_true [OF xs] by blast
      then have "rises (history xs ?s1) = 0" by (rule rises_all_true)
      then show ?thesis using h by simp
    next
      case False
      then have "rises (history (x # xs) s) = rises (history xs ?s1)" using h by simp
      then show ?thesis using Cons.IH [OF xs, of ?s1] by simp
    qed
  qed
qed

theorem load_complete_monotone_witness:
  "Unloaded \<notin> set [Add ''A'' None, MasterPathLoaded, ValueUpdated ''A'' ''a'', Remove ''A'', Add ''B'' None]
   \<and> history [Add ''A'' None, MasterPathLoaded, ValueUpdated ''A'' ''a'', Remove ''A'', Add ''B'' None]
        (fresh :: string RecordList) = [False, False, False, True, True, True]
   \<and> rises (history [Add ''A'' None, MasterPathLoaded, ValueUpdated ''A'' ''a'', Remove ''A'', Add ''B'' None]
        (fresh :: string RecordList)) \<le> 1
   \<and> Unloaded \<notin> set [Remove ''A'', Add ''D'' None, ValueUpdated ''D'' ''d'', Move ''B'' None, MasterPathLoaded]
   \<and> loadComplete loaded_ABC
   \<and> False \<notin> set (history [Remove ''A'', Add ''D'' None, ValueUpdated ''D'' ''d'', Move ''B'' None, MasterPathLoaded]
        loaded_ABC)"
proof -
  have u1: "Unloaded \<notin> set [Add ''A'' None, MasterPathLoaded, ValueUpdated ''A'' (''a'' :: string), Remove ''A'', Add ''B'' None]"
    by simp
  have u2: "Unloaded \<notin> set [Remove ''A'', Add ''D'' None, ValueUpdated ''D'' (''d'' :: string), Move ''B'' None, MasterPathLoaded]"
    by simp
  have h: "history [Add ''A'' None, MasterPathLoaded, ValueUpdated ''A'' ''a'', Remove ''A'', Add ''B'' None]
        (fresh :: string RecordList) = [False, False, False, True, True, True]"
    by code_simp
  have l: "loadComplete loaded_ABC" by code_simp
  have c1: "rises (history [Add ''A'' None, MasterPathLoaded, ValueUpdated ''A'' ''a'', Remove ''A'', Add ''B'' None]
        (fresh :: string RecordList)) \<le> 1"
    using load_complete_monotone [OF u1, of fresh] by blast
  have c2: "\<forall>b\<in>set (history [Remove ''A'', Add ''D'' None, ValueUpdated ''D'' ''d'', Move ''B'' None, MasterPathLoaded]
        loaded_ABC). b"
    using l load_complete_monotone [OF u2, of loaded_ABC] by blast
  show ?thesis using u1 u2 h l c1 c2 by blast
qed

lemma indexOf_absent: "x \<notin> set xs \<Longrightarrow> indexOf xs x = - 1"
  by (simp add: indexOf_def)

lemma indexOf_first: "x \<notin> set xs \<Longrightarrow> indexOf (xs @ x # ys) x = int (length xs)"
  by (induction xs) (auto simp: indexOf_def)

lemma splice_insert: "n \<le> length xs \<Longrightarrow> splice (int n) 0 [k] xs = take n xs @ k # drop n xs"
  by (simp add: splice_def Let_def min_def)

lemma splice_delete: "splice (int (length xs)) 1 [] (xs @ k # ys) = xs @ ys"
  by (simp add: splice_def Let_def min_def)

lemma set_splice_insert: "set (splice i 0 [k] xs) = insert k (set xs)"
proof -
  have "set (take n xs) \<union> set (drop n xs) = set xs" for n
    using set_append [of "take n xs" "drop n xs"] by simp
  then show ?thesis by (auto simp: splice_def Let_def)
qed

lemma first_occurrence: "x \<in> set xs \<Longrightarrow> \<exists>as bs. xs = as @ x # bs \<and> x \<notin> set as"
  by (rule split_list_first)

lemma splice_indexOf: "k \<in> set xs \<Longrightarrow> splice (indexOf xs k) 1 [] xs = remove1 k xs"
proof -
  assume "k \<in> set xs"
  then obtain as bs where s: "xs = as @ k # bs" "k \<notin> set as" using first_occurrence by metis
  then show ?thesis using splice_delete [of as k bs]
    by (simp add: indexOf_first remove1_append)
qed

lemma putAfter_first: "recIds (putAfter k None s) = k # recIds s"
  by (simp add: putAfter_def posFor_def splice_def Let_def)

lemma putAfter_absent: "p \<notin> set (recIds s) \<Longrightarrow> recIds (putAfter k (Some p) s) = recIds s @ [k]"
  by (simp add: putAfter_def posFor_def findKey_def indexOf_absent splice_def Let_def)

lemma putAfter_present:
  "recIds s = xs @ p # ys \<Longrightarrow> p \<notin> set xs \<Longrightarrow> recIds (putAfter k (Some p) s) = xs @ p # k # ys"
proof -
  assume r: "recIds s = xs @ p # ys" and n: "p \<notin> set xs"
  have "int (length xs) + 1 = int (Suc (length xs))" by simp
  then have "posFor s (Some p) = int (Suc (length xs))"
    using r n by (simp add: posFor_def findKey_def indexOf_first Let_def)
  moreover have "Suc (length xs) \<le> length (recIds s)" using r by simp
  ultimately show ?thesis using r splice_insert [of "Suc (length xs)" "recIds s" k]
    by (simp add: putAfter_def Let_def)
qed

lemma valueUpdated_pending_recIds:
  "map_of (loading s) k = Some (r, S) \<Longrightarrow>
   recIds (fst (valueUpdated k v s)) = recIds (putAfter k S (s\<lparr>recIds := recIds s\<rparr>))"
  by (simp add: valueUpdated_pending checkLoadState_recIds putAfter_def posFor_def findKey_def Let_def
      split: option.splits)

lemma add_loading: "map_of (loading (fst (add k S s))) k = Some (Child k, S)"
  by (simp add: add_def Let_def update_conv')

lemma dropRecord_loading:
  "k' \<noteq> k \<Longrightarrow> map_of (loading (fst (snd (dropRecord k' s)))) k = map_of (loading s) k"
  by (simp add: dropRecord_def delete_conv' split: option.splits)

lemma remove_key_fst: "fst (remove_key k s) = fst (snd (dropRecord k s))"
  by (simp add: remove_key_def split: prod.splits option.splits)

lemma checkLoadState_loading: "loading (fst (checkLoadState ko s)) = loading s"
  by (simp add: checkLoadState_def Let_def split: option.splits)

lemma step_loading:
  "\<not> touches k x \<Longrightarrow> map_of (loading (fst (step x s))) k = map_of (loading s) k"
proof (cases x)
  case (Add k' p)
  assume "\<not> touches k x"
  then show ?thesis using Add by (simp add: add_def Let_def update_conv')
next
  case (Remove k')
  assume "\<not> touches k x"
  then show ?thesis using Remove dropRecord_loading [of k' k s]
    by (simp add: remove_key_fst)
next
  case (Move k' p)
  then show ?thesis by (simp add: move_def Let_def putAfter_flags)
next
  case MasterPathLoaded
  then show ?thesis by (simp add: masterPathLoaded_def checkLoadState_def Let_def)
next
  case Unloaded
  assume "\<not> touches k x"
  then show ?thesis using Unloaded by simp
next
  case (ValueUpdated k' v)
  assume "\<not> touches k x"
  then have ne: "k' \<noteq> k" using ValueUpdated by simp
  show ?thesis
  proof (cases "map_of (loading s) k'")
    case None
    then show ?thesis using ValueUpdated by (simp add: valueUpdated_not_pending)
  next
    case (Some rp)
    obtain r p where "rp = (r, p)" by (cases rp)
    then show ?thesis using ValueUpdated Some ne
      by (simp add: valueUpdated_pending checkLoadState_loading putAfter_flags delete_conv')
  qed
qed

lemma run_loading:
  "\<forall>x\<in>set ops. \<not> touches k x \<Longrightarrow> map_of (loading (fst (run ops s))) k = map_of (loading s) k"
  by (induction ops arbitrary: s) (simp_all add: case_prod_beta step_loading)

text \<open>
  C7. After \<open>add(key, S)\<close> and any operations that neither re-add, remove or reset the
  key nor deliver its value, the arrival of the key's value puts the key into the ordered
  sequence at the first position when \<open>S\<close> is null, at the end when \<open>S\<close> is not in the
  sequence, and otherwise immediately after the (first) position of \<open>S\<close> at that time.
\<close>

theorem promotion_inserts_after_sibling:
  assumes "\<forall>x\<in>set ops. \<not> touches k x"
    and "s = fst (run ops (fst (add k S s0)))"
  shows "(S = None \<longrightarrow> recIds (fst (valueUpdated k v s)) = k # recIds s)
       \<and> (\<forall>p. S = Some p \<and> p \<notin> set (recIds s) \<longrightarrow>
             recIds (fst (valueUpdated k v s)) = recIds s @ [k])
       \<and> (\<forall>p xs ys. S = Some p \<and> recIds s = xs @ p # ys \<and> p \<notin> set xs \<longrightarrow>
             recIds (fst (valueUpdated k v s)) = xs @ p # k # ys)"
proof -
  have "map_of (loading s) k = Some (Child k, S)"
    using assms by (simp add: run_loading add_loading)
  then have r: "recIds (fst (valueUpdated k v s)) = recIds (putAfter k S (s\<lparr>recIds := recIds s\<rparr>))"
    by (rule valueUpdated_pending_recIds)
  show ?thesis
  proof (intro conjI allI impI)
    assume "S = None"
    then show "recIds (fst (valueUpdated k v s)) = k # recIds s" using r by (simp add: putAfter_first)
  next
    fix p assume "S = Some p \<and> p \<notin> set (recIds s)"
    then show "recIds (fst (valueUpdated k v s)) = recIds s @ [k]" using r by (simp add: putAfter_absent)
  next
    fix p xs ys assume "S = Some p \<and> recIds s = xs @ p # ys \<and> p \<notin> set xs"
    then show "recIds (fst (valueUpdated k v s)) = xs @ p # k # ys"
      using r putAfter_present [of "s\<lparr>recIds := recIds s\<rparr>" xs p ys k] by simp
  qed
qed

text \<open>
  C8, as the code has it. The predecessor lookup returns null for an empty sequence and
  for the first key, the key just before \<open>K\<close> when \<open>K\<close> is further on in the sequence,
  and the last key of the sequence when \<open>K\<close> is not in a non-empty sequence.
\<close>

theorem predecessor_lookup:
  "(recIds s = [] \<longrightarrow> getPrevChild s k = None)
   \<and> (\<forall>ys. recIds s = k # ys \<longrightarrow> getPrevChild s k = None)
   \<and> (\<forall>xs p ys. recIds s = xs @ p # k # ys \<and> k \<notin> set xs \<and> p \<noteq> k \<longrightarrow> getPrevChild s k = Some p)
   \<and> (recIds s \<noteq> [] \<and> k \<notin> set (recIds s) \<longrightarrow> getPrevChild s k = Some (last (recIds s)))"
proof (intro conjI allI impI)
  assume "recIds s = []"
  then show "getPrevChild s k = None" by (simp add: getPrevChild_def)
next
  fix ys assume "recIds s = k # ys"
  then show "getPrevChild s k = None" by (simp add: getPrevChild_def findKey_def indexOf_def Let_def)
next
  fix xs p ys assume a: "recIds s = xs @ p # k # ys \<and> k \<notin> set xs \<and> p \<noteq> k"
  then have "k \<notin> set (xs @ [p])" by auto
  then have "indexOf ((xs @ [p]) @ k # ys) k = int (length (xs @ [p]))" by (rule indexOf_first)
  then have "indexOf (recIds s) k = int (length (xs @ [p]))" using a by simp
  then show "getPrevChild s k = Some p" using a
    by (simp add: getPrevChild_def findKey_def Let_def at_def nth_append)
next
  assume a: "recIds s \<noteq> [] \<and> k \<notin> set (recIds s)"
  have n: "nat (int (length (recIds s)) - 1) = length (recIds s) - Suc 0" by arith
  have "0 < length (recIds s)" using a by simp
  then show "getPrevChild s k = Some (last (recIds s))" using a
    by (simp add: getPrevChild_def findKey_def indexOf_absent Let_def at_def last_conv_nth n)
qed

lemma active_AB_eq:
  "active_AB = \<lparr>recs = [(''A'', Child ''A''), (''B'', Child ''B'')], recIds = [''A'', ''B''],
     snaps = [(''A'', ''a''), (''B'', ''b'')], loading = [], loadComplete = False,
     initialKeysLeft = [], masterLoaded = False\<rparr>"
  unfolding active_AB_def by code_simp

theorem promotion_inserts_after_sibling_witness:
  "\<not> touches ''C'' (MasterPathLoaded :: string op)
   \<and> recIds (fst (run [MasterPathLoaded] (fst (add ''C'' (Some ''A'') active_AB)))) = [] @ ''A'' # [''B'']
   \<and> recIds (fst (valueUpdated ''C'' ''c'' (fst (run [MasterPathLoaded] (fst (add ''C'' (Some ''A'') active_AB))))))
       = [] @ ''A'' # ''C'' # [''B'']
   \<and> ''Z'' \<notin> set (recIds (fst (run [MasterPathLoaded] (fst (add ''C'' (Some ''Z'') active_AB)))))
   \<and> recIds (fst (valueUpdated ''C'' ''c'' (fst (run [MasterPathLoaded] (fst (add ''C'' (Some ''Z'') active_AB))))))
       = recIds (fst (run [MasterPathLoaded] (fst (add ''C'' (Some ''Z'') active_AB)))) @ [''C'']
   \<and> recIds (fst (valueUpdated ''C'' ''c'' (fst (run [MasterPathLoaded] (fst (add ''C'' None active_AB))))))
       = ''C'' # recIds (fst (run [MasterPathLoaded] (fst (add ''C'' None active_AB))))"
proof -
  have h: "\<forall>x\<in>set [MasterPathLoaded :: string op]. \<not> touches ''C'' x" by simp
  have a: "recIds (fst (run [MasterPathLoaded] (fst (add ''C'' (Some ''A'') active_AB)))) = [] @ ''A'' # [''B''] \<and> ''A'' \<notin> set []"
    by code_simp
  have z: "''Z'' \<notin> set (recIds (fst (run [MasterPathLoaded] (fst (add ''C'' (Some ''Z'') active_AB)))))"
    by code_simp
  have c1: "recIds (fst (valueUpdated ''C'' ''c'' (fst (run [MasterPathLoaded] (fst (add ''C'' (Some ''A'') active_AB))))))
       = [] @ ''A'' # ''C'' # [''B'']"
    using a promotion_inserts_after_sibling [of "[MasterPathLoaded]" "''C''" _ "Some ''A''" active_AB "''c''", OF h refl]
    by blast
  have c2: "recIds (fst (valueUpdated ''C'' ''c'' (fst (run [MasterPathLoaded] (fst (add ''C'' (Some ''Z'') active_AB))))))
       = recIds (fst (run [MasterPathLoaded] (fst (add ''C'' (Some ''Z'') active_AB)))) @ [''C'']"
    using z promotion_inserts_after_sibling [of "[MasterPathLoaded]" "''C''" _ "Some ''Z''" active_AB "''c''", OF h refl]
    by blast
  have c3: "recIds (fst (valueUpdated ''C'' ''c'' (fst (run [MasterPathLoaded] (fst (add ''C'' None active_AB))))))
       = ''C'' # recIds (fst (run [MasterPathLoaded] (fst (add ''C'' None active_AB))))"
    using promotion_inserts_after_sibling [of "[MasterPathLoaded]" "''C''" _ None active_AB "''c''", OF h refl]
    by blast
  have t: "\<not> touches ''C'' (MasterPathLoaded :: string op)" by simp
  show ?thesis using t a z c1 c2 c3 by blast
qed

theorem predecessor_lookup_witness:
  "recIds (fresh :: string RecordList) = [] \<and> getPrevChild (fresh :: string RecordList) ''A'' = None
   \<and> recIds active_AB = ''A'' # [''B''] \<and> getPrevChild active_AB ''A'' = None
   \<and> recIds active_AB = [] @ ''A'' # ''B'' # [] \<and> getPrevChild active_AB ''B'' = Some ''A''
   \<and> recIds active_AB \<noteq> [] \<and> ''Z'' \<notin> set (recIds active_AB)
   \<and> getPrevChild active_AB ''Z'' = Some (last (recIds active_AB))"
proof -
  have e: "recIds (fresh :: string RecordList) = []" by (simp add: fresh_def)
  have f: "recIds active_AB = ''A'' # [''B'']" by (simp add: active_AB_eq)
  have m: "recIds active_AB = [] @ ''A'' # ''B'' # [] \<and> ''B'' \<notin> set [] \<and> ''A'' \<noteq> ''B''"
    by (simp add: active_AB_eq)
  have z: "recIds active_AB \<noteq> [] \<and> ''Z'' \<notin> set (recIds active_AB)" by (simp add: active_AB_eq)
  have c1: "getPrevChild (fresh :: string RecordList) ''A'' = None"
    using e predecessor_lookup [of "fresh :: string RecordList" "''A''"] by blast
  have c2: "getPrevChild active_AB ''A'' = None"
    using f predecessor_lookup [of active_AB "''A''"] by blast
  have c3: "getPrevChild active_AB ''B'' = Some ''A''"
    using m predecessor_lookup [of active_AB "''B''"] by blast
  have c4: "getPrevChild active_AB ''Z'' = Some (last (recIds active_AB))"
    using z predecessor_lookup [of active_AB "''Z''"] by blast
  show ?thesis using e f m z c1 c2 c3 c4 by blast
qed

text \<open>
  C8 as stated fails: with the sequence A, B the lookup for the absent key Z returns B,
  not null.
\<close>

theorem predecessor_of_absent_key_counterexample:
  "''Z'' \<notin> set (recIds active_AB) \<and> getPrevChild active_AB ''Z'' = Some ''B''"
  by code_simp

lemma has_update: "has (AList.update k v al) k' = (k' = k \<or> has al k')"
  by (simp add: has_def update_conv')

lemma has_delete: "has (AList.delete k al) k' = (k' \<noteq> k \<and> has al k')"
  by (simp add: has_def delete_conv')

lemma checkLoadState_recs: "recs (fst (checkLoadState ko s)) = recs s"
  by (simp add: checkLoadState_def Let_def split: option.splits)

lemma set_putAfter: "set (recIds (putAfter k p s)) = insert k (set (recIds s))"
  by (simp add: putAfter_def Let_def set_splice_insert)

lemma splice_indexOf_Suc: "k \<in> set xs \<Longrightarrow> splice (indexOf xs k) (Suc 0) [] xs = remove1 k xs"
  using splice_indexOf [of k xs] by simp

lemma move_active:
  "has (recs s) k \<Longrightarrow> k \<in> set (recIds s) \<Longrightarrow>
   move k p s = (putAfter k p (s\<lparr>recIds := remove1 k (recIds s)\<rparr>),
                 notify child_moved k None (putAfter k p (s\<lparr>recIds := remove1 k (recIds s)\<rparr>)))"
  by (simp add: move_def Let_def splice_indexOf_Suc)

lemma store_inv_step: "store_inv s \<Longrightarrow> store_inv (fst (step x s))"
proof (cases x)
  case (Add k p)
  assume "store_inv s"
  then show ?thesis using Add by (simp add: store_inv_def add_def Let_def)
next
  case (Remove k)
  assume "store_inv s"
  then show ?thesis using Remove
    by (auto simp: store_inv_def remove_key_fst dropRecord_def has_delete remove_item_def
        distinct_delete split: option.splits)
next
  case (Move k p)
  assume si: "store_inv s"
  show ?thesis
  proof (cases "has (recs s) k")
    case True
    then have "k \<in> set (recIds s)" using si by (simp add: store_inv_def)
    then have "set (recIds s) \<subseteq> insert k (set (remove1 k (recIds s)))"
      using in_set_remove1 [of _ k "recIds s"] by blast
    then show ?thesis using si Move True \<open>k \<in> set (recIds s)\<close>
      by (auto simp: move_active store_inv_def set_putAfter putAfter_flags)
  next
    case False
    then show ?thesis using si Move by (simp add: move_def)
  qed
next
  case MasterPathLoaded
  assume "store_inv s"
  then show ?thesis using MasterPathLoaded
    by (simp add: store_inv_def masterPathLoaded_def checkLoadState_recs checkLoadState_snaps
        checkLoadState_recIds)
next
  case Unloaded
  then show ?thesis
    by (simp add: unloaded_def reset_def case_prod_beta store_inv_def fresh_def has_def)
next
  case (ValueUpdated k v)
  assume si: "store_inv s"
  show ?thesis
  proof (cases "map_of (loading s) k")
    case None
    then show ?thesis using si ValueUpdated
      by (simp add: valueUpdated_not_pending store_inv_def has_update distinct_update)
  next
    case (Some rp)
    obtain r p where "rp = (r, p)" by (cases rp)
    then show ?thesis using si ValueUpdated Some
      by (simp add: valueUpdated_pending store_inv_def checkLoadState_recs checkLoadState_snaps
          checkLoadState_recIds putAfter_flags set_putAfter has_update distinct_update)
  qed
qed

lemma reachable_store_inv: "reachable s \<Longrightarrow> store_inv s"
proof (induction rule: reachable.induct)
  case reachable_fresh
  then show ?case by (simp add: store_inv_def fresh_def has_def)
next
  case (reachable_step s x)
  then show ?case by (simp add: store_inv_step)
qed

text \<open>
  C9, as the code has it. In a reachable state, \<open>move(key, afterKey)\<close> on an active key
  (a key of \<open>recs\<close>, which is then in the ordered sequence) changes the ordered sequence
  only: the key is taken from its position and put back first (\<open>afterKey\<close> null), at the
  end (\<open>afterKey\<close> not in the rest of the sequence) or right after \<open>afterKey\<close>. It emits
  one \<open>child_moved\<close> with the key, its snapshot and its new predecessor, followed by the
  aggregate value notification when load-complete is true. On a key that is not active,
  \<open>move\<close> changes nothing and emits nothing.
\<close>

theorem move_reinserts_and_notifies:
  assumes "reachable s"
  shows "(has (recs s) k \<longrightarrow>
            k \<in> set (recIds s)
          \<and> fst (move k p s) = s\<lparr>recIds := recIds (fst (move k p s))\<rparr>
          \<and> (p = None \<longrightarrow> recIds (fst (move k p s)) = k # remove1 k (recIds s))
          \<and> (\<forall>a. p = Some a \<and> a \<notin> set (remove1 k (recIds s)) \<longrightarrow>
                recIds (fst (move k p s)) = remove1 k (recIds s) @ [k])
          \<and> (\<forall>a xs ys. p = Some a \<and> remove1 k (recIds s) = xs @ a # ys \<and> a \<notin> set xs \<longrightarrow>
                recIds (fst (move k p s)) = xs @ a # k # ys)
          \<and> snd (move k p s) =
              ChildMoved k (map_of (snaps s) k) (getPrevChild (fst (move k p s)) k)
              # (if loadComplete s then [Value (toArray (snaps s))] else []))
       \<and> (\<not> has (recs s) k \<longrightarrow> move k p s = (s, []))"
proof (intro conjI impI allI)
  assume "\<not> has (recs s) k"
  then show "move k p s = (s, [])" by (simp add: move_def)
next
  assume h: "has (recs s) k"
  then show in_seq: "k \<in> set (recIds s)"
    using reachable_store_inv [OF assms] by (simp add: store_inv_def)
  let ?s1 = "s\<lparr>recIds := remove1 k (recIds s)\<rparr>"
  have mv: "move k p s = (putAfter k p ?s1, notify child_moved k None (putAfter k p ?s1))"
    using h in_seq by (rule move_active)
  show "fst (move k p s) = s\<lparr>recIds := recIds (fst (move k p s))\<rparr>"
    using mv by (simp add: putAfter_def Let_def)
  show "snd (move k p s) =
              ChildMoved k (map_of (snaps s) k) (getPrevChild (fst (move k p s)) k)
              # (if loadComplete s then [Value (toArray (snaps s))] else [])"
    using mv by (simp add: notifyValue_def putAfter_flags)
  {
    assume "p = None"
    then show "recIds (fst (move k p s)) = k # remove1 k (recIds s)"
      using mv by (simp add: putAfter_first)
  }
  {
    fix a assume "p = Some a \<and> a \<notin> set (remove1 k (recIds s))"
    then show "recIds (fst (move k p s)) = remove1 k (recIds s) @ [k]"
      using mv putAfter_absent [of a ?s1 k] by simp
  }
  {
    fix a xs ys assume "p = Some a \<and> remove1 k (recIds s) = xs @ a # ys \<and> a \<notin> set xs"
    then show "recIds (fst (move k p s)) = xs @ a # k # ys"
      using mv putAfter_present [of ?s1 xs a ys k] by simp
  }
qed

lemma reachable_run: "reachable s \<Longrightarrow> reachable (fst (run ops s))"
proof (induction ops arbitrary: s)
  case Nil
  then show ?case by simp
next
  case (Cons x xs)
  have "reachable (fst (step x s))" using Cons.prems by (rule reachable_step)
  then have "reachable (fst (run xs (fst (step x s))))" by (rule Cons.IH)
  then show ?case by (simp add: case_prod_beta)
qed

theorem move_reinserts_and_notifies_witness:
  "reachable loaded_ABC \<and> has (recs loaded_ABC) ''C'' \<and> \<not> has (recs loaded_ABC) ''Z''
   \<and> remove1 ''C'' (recIds loaded_ABC) = [] @ ''A'' # [''B'']
   \<and> recIds (fst (move ''C'' (Some ''A'') loaded_ABC)) = [] @ ''A'' # ''C'' # [''B'']
   \<and> recIds (fst (move ''C'' None loaded_ABC)) = ''C'' # remove1 ''C'' (recIds loaded_ABC)
   \<and> ''Z'' \<notin> set (remove1 ''A'' (recIds loaded_ABC))
   \<and> recIds (fst (move ''A'' (Some ''Z'') loaded_ABC)) = remove1 ''A'' (recIds loaded_ABC) @ [''A'']
   \<and> snd (move ''C'' (Some ''A'') loaded_ABC) =
        ChildMoved ''C'' (map_of (snaps loaded_ABC) ''C'') (getPrevChild (fst (move ''C'' (Some ''A'') loaded_ABC)) ''C'')
        # (if loadComplete loaded_ABC then [Value (toArray (snaps loaded_ABC))] else [])
   \<and> move ''Z'' (Some ''A'') loaded_ABC = (loaded_ABC, [])"
proof -
  have r: "reachable loaded_ABC"
    unfolding loaded_ABC_def by (rule reachable_run [OF reachable_fresh])
  have h: "has (recs loaded_ABC) ''C''" by code_simp
  have ha: "has (recs loaded_ABC) ''A''" by code_simp
  have n: "\<not> has (recs loaded_ABC) ''Z''" by code_simp
  have a: "remove1 ''C'' (recIds loaded_ABC) = [] @ ''A'' # [''B''] \<and> ''A'' \<notin> set []" by code_simp
  have z: "''Z'' \<notin> set (remove1 ''A'' (recIds loaded_ABC))" by code_simp
  have c1: "recIds (fst (move ''C'' (Some ''A'') loaded_ABC)) = [] @ ''A'' # ''C'' # [''B'']
     \<and> snd (move ''C'' (Some ''A'') loaded_ABC) =
        ChildMoved ''C'' (map_of (snaps loaded_ABC) ''C'') (getPrevChild (fst (move ''C'' (Some ''A'') loaded_ABC)) ''C'')
        # (if loadComplete loaded_ABC then [Value (toArray (snaps loaded_ABC))] else [])"
    using h a move_reinserts_and_notifies [OF r, of "''C''" "Some ''A''"] by blast
  have c2: "recIds (fst (move ''C'' None loaded_ABC)) = ''C'' # remove1 ''C'' (recIds loaded_ABC)"
    using h move_reinserts_and_notifies [OF r, of "''C''" None] by blast
  have c3: "recIds (fst (move ''A'' (Some ''Z'') loaded_ABC)) = remove1 ''A'' (recIds loaded_ABC) @ [''A'']"
    using ha z move_reinserts_and_notifies [OF r, of "''A''" "Some ''Z''"] by blast
  have c4: "move ''Z'' (Some ''A'') loaded_ABC = (loaded_ABC, [])"
    using n move_reinserts_and_notifies [OF r, of "''Z''" "Some ''A''"] by blast
  show ?thesis using r h n a z c1 c2 c3 c4 by blast
qed

text \<open>
  C9 as stated fails: with the sequence A, B, C fully loaded, \<open>move(C, A)\<close> gives A, C, B
  and emits \<open>child_moved\<close> and then an aggregate value notification.
\<close>

theorem move_emits_value_counterexample:
  "recIds loaded_ABC = [''A'', ''B'', ''C''] \<and> loadComplete loaded_ABC
   \<and> recIds (fst (move ''C'' (Some ''A'') loaded_ABC)) = [''A'', ''C'', ''B'']
   \<and> snd (move ''C'' (Some ''A'') loaded_ABC)
       = [ChildMoved ''C'' (Some ''c'') (Some ''A''), Value [''a'', ''b'', ''c'']]"
  by code_simp


































text \<open>
  C5 at a failing input. B is pending (announced after A, no value yet). \<open>remove(B)\<close>
  leaves the state as it is and calls no \<open>unwatch\<close>: \<open>_dropRecord\<close> looks for the key in
  \<open>recs\<close> only. When the value of B arrives afterwards, B is promoted: \<open>child_added\<close> is
  emitted for it and it is in the ordered sequence.
\<close>

theorem remove_of_pending_key_is_ignored:
  "map_of (loading pending_B) ''B'' = Some (Child ''B'', Some ''A'') \<and> \<not> has (recs pending_B) ''B''
   \<and> remove_key ''B'' pending_B = (pending_B, [])
   \<and> snd (valueUpdated ''B'' ''b'' (fst (remove_key ''B'' pending_B))) = [ChildAdded ''B'' (Some ''b'') (Some ''A'')]
   \<and> recIds (fst (valueUpdated ''B'' ''b'' (fst (remove_key ''B'' pending_B)))) = [''A'', ''B'']"
  by code_simp

text \<open>
  C6 at a failing input. Z is neither pending nor active. A value arriving for Z emits no
  event, but \<open>this.snaps[key] = snap\<close> has already stored it: the snapshot store has a
  new entry, and the next aggregate value notification carries it.
\<close>

theorem orphan_value_is_stored:
  "\<not> has (loading active_AB) ''Z'' \<and> \<not> has (recs active_AB) ''Z''
   \<and> valueUpdated ''Z'' ''z'' active_AB = (active_AB\<lparr>snaps := snaps active_AB @ [(''Z'', ''z'')]\<rparr>, [])
   \<and> fst (valueUpdated ''Z'' ''z'' active_AB) \<noteq> active_AB
   \<and> snd (masterPathLoaded (fst (valueUpdated ''Z'' ''z'' active_AB))) = [Value [''a'', ''b'', ''z'']]"
  by code_simp

text \<open>
  C10 at failing inputs. \<open>add\<close> registers the bound function, and \<open>remove\<close> of the
  active key passes the method \<open>this._valueUpdated\<close> to \<open>unwatch\<close>. \<open>remove\<close> of a pending
  key calls no \<open>unwatch\<close> at all, and neither does \<open>stop\<close> for the pending key B (it
  releases the active key A only, again with the method).
\<close>

theorem unwatch_not_with_registered_callback:
  "snd (run [Add ''A'' None, ValueUpdated ''A'' ''a'', Remove ''A''] (fresh :: string RecordList))
     = [Watch (Child ''A'') (BoundValueUpdated ''A''), ChildAdded ''A'' (Some ''a'') None,
        Unwatch (Child ''A'') ValueUpdatedMethod, ChildRemoved ''A'' (Some ''a'')]
   \<and> snd (run [Add ''A'' None, Remove ''A''] (fresh :: string RecordList))
     = [Watch (Child ''A'') (BoundValueUpdated ''A'')]
   \<and> snd (stop \<lparr>recList = pending_B, running = True\<rparr>)
     = [MasterOff master_child_added, MasterOff master_child_removed, MasterOff master_child_moved,
        Unwatch (Child ''A'') ValueUpdatedMethod, ChildRemoved ''A'' (Some ''a'')]"
  by code_simp

end
